theory Spec2Isabelle
  imports Main "HOL-Library.Word"
begin

unbundle bit_operations_syntax

section \<open>Frame codec (class WebSocketFrame)\<close>

text \<open>
  A Python \<open>bytes\<close> value is a list of 8-bit words. Python integers are unbounded:
  the header fields that \<open>parse\<close> computes with \<open>&\<close> and \<open>>>\<close> are \<open>int\<close>; lengths and
  offsets, which are never negative, are \<open>nat\<close>.
\<close>

type_synonym byte = "8 word"

text \<open>The dictionary returned by \<open>parse\<close>, with its four keys.\<close>

record frame =
  fin :: int
  opcode :: int
  payload :: "byte list"
  length_consumed :: nat

text \<open>The exceptions that the codec and the router can raise.\<close>

datatype error = ValueError | StructError | KeyError | AttributeError | TypeError
  | UnicodeDecodeError | ConnectionError

text \<open>Python's \<open>data[a:b]\<close> for \<open>0 \<le> a \<le> b\<close>: out-of-range bounds are clamped.\<close>

definition slice :: "'a list \<Rightarrow> nat \<Rightarrow> nat \<Rightarrow> 'a list" where
  "slice data a b = take (b - a) (drop a data)"

text \<open>\<open>struct.unpack('>H', bs)[0]\<close> and \<open>struct.unpack('>Q', bs)[0]\<close>: the big-endian
  value of the bytes.\<close>

definition unpack_be :: "byte list \<Rightarrow> nat" where
  "unpack_be bs = foldl (\<lambda>acc b. acc * 256 + unat b) 0 bs"

text \<open>\<open>struct.pack('>H', n)\<close> is \<open>pack_be 2 n\<close> and \<open>struct.pack('>Q', n)\<close> is
  \<open>pack_be 8 n\<close>; the range check of \<open>struct.pack\<close> is made by the caller.\<close>

fun pack_be :: "nat \<Rightarrow> nat \<Rightarrow> byte list" where
  "pack_be 0 n = []"
| "pack_be (Suc k) n = pack_be k (n div 256) @ [of_nat (n mod 256)]"

text \<open>The list comprehension
  \<open>[payload[i] ^ mask_key[i % 4] for i in range(len(payload))]\<close>.\<close>

definition unmask :: "byte list \<Rightarrow> byte list \<Rightarrow> byte list" where
  "unmask mask_key pl = map (\<lambda>i. (pl ! i) XOR (mask_key ! (i mod 4))) [0..<length pl]"

text \<open>
  \<open>WebSocketFrame.parse\<close>. Every \<open>return None\<close> of the source is a \<open>None\<close> here; the
  function raises nowhere, since each \<open>struct.unpack\<close> is guarded by a length test.
  The header stage yields the announced payload length and the offset behind the
  length field.
\<close>

definition parse_header :: "byte list \<Rightarrow> (int \<times> int \<times> int \<times> nat \<times> nat) option" where
  "parse_header data =
     (if length data < 2 then None
      else
        let byte1 = uint (data ! 0);
            byte2 = uint (data ! 1);
            fin = drop_bit 7 (byte1 AND 128);
            opcode = byte1 AND 15;
            masked = drop_bit 7 (byte2 AND 128);
            payload_len = nat (byte2 AND 127)
        in
          if payload_len = 126 then
            (if length data < 4 then None
             else Some (fin, opcode, masked, unpack_be (slice data 2 4), 4))
          else if payload_len = 127 then
            (if length data < 10 then None
             else Some (fin, opcode, masked, unpack_be (slice data 2 10), 10))
          else Some (fin, opcode, masked, payload_len, 2))"

definition parse :: "byte list \<Rightarrow> frame option" where
  "parse data =
     (case parse_header data of
        None \<Rightarrow> None
      | Some (fin_v, opcode_v, masked, payload_len, offset0) \<Rightarrow>
          if masked \<noteq> 0 \<and> length data < offset0 + 4 then None
          else
            let mask_key = (if masked \<noteq> 0 then Some (slice data offset0 (offset0 + 4)) else None);
                offset = (if masked \<noteq> 0 then offset0 + 4 else offset0)
            in
              if length data < offset + payload_len then None
              else
                let pl = slice data offset (offset + payload_len);
                    pl' = (case mask_key of
                             Some k \<Rightarrow> if masked \<noteq> 0 \<and> k \<noteq> [] then unmask k pl else pl
                           | None \<Rightarrow> pl)
                in Some \<lparr>fin = fin_v, opcode = opcode_v, payload = pl',
                         length_consumed = offset + payload_len\<rparr>)"

text \<open>
  \<open>WebSocketFrame.build\<close> on a \<open>bytes\<close> payload (a \<open>str\<close> payload is encoded to its
  UTF-8 bytes first, see \<open>encode_utf8\<close> below). \<open>bytearray.append\<close> raises
  \<open>ValueError\<close> when the header byte is outside \<open>range(256)\<close>, and
  \<open>struct.pack('>Q', n)\<close> raises \<open>struct.error\<close> when \<open>n\<close> does not fit 64 bits.
\<close>

definition build :: "byte list \<Rightarrow> int \<Rightarrow> error + byte list" where
  "build pl opc =
     (let b0 = 128 OR opc in
        if b0 < 0 \<or> 256 \<le> b0 then Inl ValueError
        else
          let payload_len = length pl in
            if payload_len < 126 then
              Inr ([word_of_int b0, of_nat payload_len] @ pl)
            else if payload_len < 65536 then
              Inr ([word_of_int b0, 126] @ pack_be 2 payload_len @ pl)
            else if payload_len < 2 ^ 64 then
              Inr ([word_of_int b0, 127] @ pack_be 8 payload_len @ pl)
            else Inl StructError)"

subsection \<open>Consumed lengths\<close>

text \<open>What a successful \<open>parse\<close> consumes, needed to see that the read loop below
  terminates: a parsed frame takes at least the two header bytes and at most the buffer.\<close>

lemma slice_take: "b \<le> n \<Longrightarrow> slice (take n xs) a b = slice xs a b"
  by (simp add: slice_def drop_take min_def)

lemma parse_header_cong:
  assumes "2 \<le> length g" "length g \<le> length f" "g ! 0 = f ! 0" "g ! 1 = f ! 1"
    "4 \<le> length g \<Longrightarrow> slice g 2 4 = slice f 2 4"
    "10 \<le> length g \<Longrightarrow> slice g 2 10 = slice f 2 10"
  shows "parse_header g = None \<or> parse_header g = parse_header f"
proof -
  define pl where "pl = nat (uint (f ! 1) AND 127)"
  consider (a) "pl = 126" "length g < 4" | (b) "pl = 126" "4 \<le> length g"
    | (c) "pl = 127" "length g < 10" | (d) "pl = 127" "10 \<le> length g"
    | (e) "pl \<noteq> 126" "pl \<noteq> 127" by linarith
  then show ?thesis
  proof cases
    case a then show ?thesis using assms(1,4) by (simp add: parse_header_def Let_def pl_def)
  next
    case b then show ?thesis using assms(1,2,3,4) assms(5) [OF b(2)]
      by (simp add: parse_header_def Let_def pl_def)
  next
    case c then show ?thesis using assms(1,4) by (simp add: parse_header_def Let_def pl_def)
  next
    case d then show ?thesis using assms(1,2,3,4) assms(6) [OF d(2)]
      by (simp add: parse_header_def Let_def pl_def)
  next
    case e then show ?thesis using assms(1,2,3,4)
      by (simp add: parse_header_def Let_def pl_def)
  qed
qed

lemma parse_header_take:
  assumes "parse_header f = Some h"
  shows "parse_header (take n f) = None \<or> parse_header (take n f) = Some h"
proof (cases "n < length f")
  case False then show ?thesis using assms by simp
next
  case True
  show ?thesis
  proof (cases "n < 2")
    case True then show ?thesis using \<open>n < length f\<close> by (simp add: parse_header_def)
  next
    case False
    have l: "length (take n f) = n" using True by simp
    have "parse_header (take n f) = None \<or> parse_header (take n f) = parse_header f"
    proof (rule parse_header_cong)
      show "2 \<le> length (take n f)" using False l by simp
      show "length (take n f) \<le> length f" by simp
      show "take n f ! 0 = f ! 0" using False by simp
      show "take n f ! 1 = f ! 1" using False by simp
      show "slice (take n f) 2 4 = slice f 2 4" if "4 \<le> length (take n f)"
        using that l by (intro slice_take) simp
      show "slice (take n f) 2 10 = slice f 2 10" if "10 \<le> length (take n f)"
        using that l by (intro slice_take) simp
    qed
    then show ?thesis using assms by simp
  qed
qed

lemma parse_header_offset: "parse_header f = Some (a, b, c, d, off) \<Longrightarrow> 2 \<le> off"
  by (auto simp: parse_header_def Let_def split: if_splits)

lemma parse_consumed_eq:
  "parse f = Some fr \<Longrightarrow> parse_header f = Some (a, b, c, d, off) \<Longrightarrow>
     length_consumed fr = (if c \<noteq> 0 then off + 4 else off) + d"
  by (auto simp: parse_def Let_def split: if_splits)

lemma parse_None_short:
  "parse_header g = Some (a, b, c, d, off) \<Longrightarrow> length g < (if c \<noteq> 0 then off + 4 else off) + d
     \<Longrightarrow> parse g = None"
  by (simp add: parse_def Let_def)


lemma parse_header_of_parse:
  assumes "parse f = Some fr"
  obtains a b c d off where "parse_header f = Some (a, b, c, d, off)"
proof (cases "parse_header f")
  case None then show ?thesis using assms by (simp add: parse_def)
next
  case (Some h) then show ?thesis using that by (cases h) auto
qed

lemma parse_consumed_le: 
  assumes "parse f = Some fr" shows "length_consumed fr \<le> length f"
proof -
  obtain a b c d off where h: "parse_header f = Some (a, b, c, d, off)"
    using assms by (rule parse_header_of_parse)
  have "\<not> length f < (if c \<noteq> 0 then off + 4 else off) + d"
    using assms h parse_None_short [OF h] by auto
  then show ?thesis using parse_consumed_eq [OF assms h] by simp
qed

lemma parse_consumed_ge:
  assumes "parse f = Some fr" shows "2 \<le> length_consumed fr"
proof -
  obtain a b c d off where h: "parse_header f = Some (a, b, c, d, off)"
    using assms by (rule parse_header_of_parse)
  show ?thesis using parse_consumed_eq [OF assms h] parse_header_offset [OF h] by simp
qed

lemma parse_take_None:
  assumes "parse f = Some fr" "n < length_consumed fr"
  shows "parse (take n f) = None"
proof -
  obtain a b c d off where h: "parse_header f = Some (a, b, c, d, off)"
    using assms(1) by (rule parse_header_of_parse)
  have n: "length (take n f) = n" using assms parse_consumed_le [OF assms(1)] by simp
  have c: "n < (if c \<noteq> 0 then off + 4 else off) + d"
    using parse_consumed_eq [OF assms(1) h] assms(2) by simp
  from parse_header_take [OF h, of n] show ?thesis
  proof
    assume "parse_header (take n f) = None" then show ?thesis by (simp add: parse_def)
  next
    assume "parse_header (take n f) = Some (a, b, c, d, off)"
    then show ?thesis using c n by (intro parse_None_short) simp_all 
  qed
qed

subsection \<open>The parse loop of \<open>handle_client\<close>\<close>

text \<open>
  The connection loop appends each read to its buffer and then runs
  \<^verbatim>\<open>while buffer: frame = parse(buffer); if not frame: break; buffer = buffer[frame['length']:]\<close>.
  \<open>drain_frames\<close> is that inner loop with the dispatch on the opcode left out: it
  returns the frames parsed and the bytes kept for the next read. \<open>feed_all\<close> runs it
  over a sequence of reads, starting from a given buffer, and lists the frames that
  each read produced.
\<close>

function drain_frames :: "byte list \<Rightarrow> frame list \<times> byte list" where
  "drain_frames buffer =
     (if buffer = [] then ([], buffer)
      else case parse buffer of
        None \<Rightarrow> ([], buffer)
      | Some fr \<Rightarrow>
          (let (frames, rest) = drain_frames (drop (length_consumed fr) buffer)
           in (fr # frames, rest)))"
  by pat_completeness auto
termination
proof (relation "measure length")
  show "wf (measure length)" by simp
next
  fix buffer :: "byte list" and fr
  assume "buffer \<noteq> []" "parse buffer = Some fr"
  then have "0 < length_consumed fr" using parse_consumed_ge [of buffer fr] by simp
  then show "(drop (length_consumed fr) buffer, buffer) \<in> measure length"
    using \<open>buffer \<noteq> []\<close> by simp
qed

declare drain_frames.simps [simp del]

fun feed_all :: "byte list \<Rightarrow> byte list list \<Rightarrow> frame list list \<times> byte list" where
  "feed_all buffer [] = ([], buffer)"
| "feed_all buffer (data # reads) =
     (let (frames, buffer') = drain_frames (buffer @ data);
          (more, buffer'') = feed_all buffer' reads
      in (frames # more, buffer''))"


section \<open>Text and JSON\<close>

text \<open>
  A Python \<open>str\<close> is represented by its UTF-8 encoding, one \<open>char\<close> per byte, so
  \<open>str.encode('utf-8')\<close> only changes the type, and \<open>bytes.decode('utf-8')\<close> checks that
  the bytes are well-formed UTF-8 (the strict decoder accepts exactly the byte sequences
  of the Unicode standard's table of well-formed sequences: no overlong forms, no
  surrogates, nothing above U+10FFFF) and raises \<open>UnicodeDecodeError\<close> otherwise.
\<close>

definition encode_utf8 :: "string \<Rightarrow> byte list" where
  "encode_utf8 s = map (\<lambda>c. of_nat (of_char c)) s"

definition cont_byte :: "byte \<Rightarrow> bool" where
  "cont_byte b \<longleftrightarrow> 128 \<le> unat b \<and> unat b \<le> 191"

fun utf8_valid :: "byte list \<Rightarrow> bool" where
  "utf8_valid [] = True"
| "utf8_valid (b0 # bs) =
     (let n = unat b0 in
      if n < 128 then utf8_valid bs
      else if 194 \<le> n \<and> n \<le> 223 then
        (case bs of b1 # r \<Rightarrow> cont_byte b1 \<and> utf8_valid r | _ \<Rightarrow> False)
      else if 224 \<le> n \<and> n \<le> 239 then
        (case bs of
           b1 # b2 # r \<Rightarrow>
             (if n = 224 then 160 \<le> unat b1 \<and> unat b1 \<le> 191
              else if n = 237 then 128 \<le> unat b1 \<and> unat b1 \<le> 159
              else cont_byte b1)
             \<and> cont_byte b2 \<and> utf8_valid r
         | _ \<Rightarrow> False)
      else if 240 \<le> n \<and> n \<le> 244 then
        (case bs of
           b1 # b2 # b3 # r \<Rightarrow>
             (if n = 240 then 144 \<le> unat b1 \<and> unat b1 \<le> 191
              else if n = 244 then 128 \<le> unat b1 \<and> unat b1 \<le> 143
              else cont_byte b1)
             \<and> cont_byte b2 \<and> cont_byte b3 \<and> utf8_valid r
         | _ \<Rightarrow> False)
      else False)"

definition decode_utf8 :: "byte list \<Rightarrow> error + string" where
  "decode_utf8 bs =
     (if utf8_valid bs then Inr (map (\<lambda>b. char_of (unat b)) bs) else Inl UnicodeDecodeError)"

text \<open>
  The values that \<open>json.loads\<close> returns: \<open>None\<close>, \<open>bool\<close>, \<open>int\<close>, \<open>str\<close>, \<open>list\<close> and
  \<open>dict\<close> (as an association list, looked up from the front). A number written with a
  fraction or an exponent is a Python \<open>float\<close>; floating point is not modelled, so such
  messages are outside this development.
\<close>

datatype json = JNull | JBool bool | JInt int | JStr string | JArr "json list"
  | JObj "(string \<times> json) list"

text \<open>\<open>d.get(k)\<close> and \<open>d.get(k, default)\<close> on a \<open>dict\<close>; \<open>d.get(k)\<close> is \<open>None\<close> when the key is
  absent.\<close>

definition dict_get :: "(string \<times> json) list \<Rightarrow> string \<Rightarrow> json \<Rightarrow> json" where
  "dict_get d k dflt = (case map_of d k of None \<Rightarrow> dflt | Some v \<Rightarrow> v)"

text \<open>
  A room identifier is used as a \<open>dict\<close> key and as a \<open>set\<close> element, where Python
  compares by \<open>==\<close> and \<open>hash\<close>: \<open>True\<close> and \<open>1\<close> are the same key, as are \<open>False\<close> and
  \<open>0\<close>; a \<open>list\<close> or a \<open>dict\<close> is unhashable and raises \<open>TypeError\<close>.
\<close>

datatype key = KNone | KInt int | KStr string

fun py_key :: "json \<Rightarrow> error + key" where
  "py_key JNull = Inr KNone"
| "py_key (JBool b) = Inr (KInt (if b then 1 else 0))"
| "py_key (JInt n) = Inr (KInt n)"
| "py_key (JStr s) = Inr (KStr s)"
| "py_key (JArr xs) = Inl TypeError"
| "py_key (JObj d) = Inl TypeError"

section \<open>The signaling server (class SignalingServer)\<close>

text \<open>
  A connection is the \<open>writer\<close> object of the stream; it is identified by a number.
  A Python \<open>set\<close> is a list without duplicates: \<open>add\<close> appends an element that is not
  there yet, \<open>discard\<close> removes it. The order in which Python iterates over a set is
  arbitrary; nothing below depends on the order chosen here.
\<close>

type_synonym conn = nat

definition set_add :: "'a \<Rightarrow> 'a list \<Rightarrow> 'a list" where
  "set_add x xs = (if x \<in> set xs then xs else xs @ [x])"

definition set_discard :: "'a \<Rightarrow> 'a list \<Rightarrow> 'a list" where
  "set_discard x xs = removeAll x xs"

text \<open>The \<open>client_info\<close> dictionary; its \<open>reader\<close> and \<open>writer\<close> entries are the
  connection itself.\<close>

record client_info =
  client_id :: nat
  client_rooms :: "key list"

text \<open>What the server prints, one constructor for each \<open>print\<close> in the source.\<close>

datatype print = Established | ClientJoined json | InvalidJSON string
  | ErrorHandlingMessage error | ErrorSending error | ErrorBroadcasting error
  | ErrorHandlingClient error | ClientDisconnected

text \<open>
  The two registries of the server object, and its effects on the outside: the calls
  of \<open>write\<close> on a connection with the bytes written, the connections on which \<open>close\<close>
  was called, and the console.
\<close>

record server =
  clients :: "conn \<rightharpoonup> client_info"
  rooms :: "key \<rightharpoonup> conn list"
  writes :: "(conn \<times> byte list) list"
  closed :: "conn list"
  console :: "print list"

definition init_server :: server where
  "init_server = \<lparr>clients = Map.empty, rooms = Map.empty, writes = [], closed = [], console = []\<rparr>"

text \<open>
  What the server takes from outside: \<open>json.loads\<close> (\<open>None\<close> when it raises
  \<open>JSONDecodeError\<close>), \<open>json.dumps\<close>, and whether \<open>write\<close> and \<open>drain\<close> on a connection
  raise.
\<close>

record env =
  json_loads :: "string \<Rightarrow> json option"
  json_dumps :: "json \<Rightarrow> string"
  send_fails :: "conn \<Rightarrow> bool"

definition say :: "print \<Rightarrow> server \<Rightarrow> server" where
  "say p st = st\<lparr>console := console st @ [p]\<rparr>"

text \<open>\<open>send_to_client\<close>: every exception is caught and printed.\<close>

definition send_to_client :: "env \<Rightarrow> server \<Rightarrow> conn \<Rightarrow> json \<Rightarrow> server" where
  "send_to_client E st websocket data =
     (let message = json_dumps E data in
      case build (encode_utf8 message) 1 of
        Inl e \<Rightarrow> say (ErrorSending e) st
      | Inr frame \<Rightarrow>
          (let st' = st\<lparr>writes := writes st @ [(websocket, frame)]\<rparr> in
           if send_fails E websocket then say (ErrorSending ConnectionError) st' else st'))"

text \<open>
  \<open>broadcast_to_room\<close>. The loop body first; the frame is built once, before the loop,
  and an exception raised there leaves the function.
\<close>

fun broadcast_loop :: "env \<Rightarrow> byte list \<Rightarrow> conn option \<Rightarrow> server \<Rightarrow> conn list \<Rightarrow> server" where
  "broadcast_loop E frame exclude st [] = st"
| "broadcast_loop E frame exclude st (client_ws # rest) =
     broadcast_loop E frame exclude
       (if Some client_ws \<noteq> exclude \<and> client_ws \<in> dom (clients st) then
          (let st' = st\<lparr>writes := writes st @ [(client_ws, frame)]\<rparr> in
           if send_fails E client_ws then say (ErrorBroadcasting ConnectionError) st' else st')
        else st)
       rest"

definition broadcast_to_room :: "env \<Rightarrow> server \<Rightarrow> json \<Rightarrow> json \<Rightarrow> conn option \<Rightarrow> error + server" where
  "broadcast_to_room E st room_id data exclude =
     (case py_key room_id of
        Inl e \<Rightarrow> Inl e
      | Inr k \<Rightarrow>
          (case rooms st k of
             None \<Rightarrow> Inr st
           | Some members \<Rightarrow>
               (let message = json_dumps E data in
                case build (encode_utf8 message) 1 of
                  Inl e \<Rightarrow> Inl e
                | Inr frame \<Rightarrow> Inr (broadcast_loop E frame exclude st members))))"

text \<open>
  \<open>handle_message\<close>. Both \<open>except\<close> clauses print and return, so the function always
  returns a state. In the \<open>join\<close> branch the room registry is updated before
  \<open>self.clients[websocket]\<close> is looked up, so a \<open>KeyError\<close> there keeps the update.
\<close>

definition handle_join :: "env \<Rightarrow> server \<Rightarrow> conn \<Rightarrow> json \<Rightarrow> server" where
  "handle_join E st websocket room_id =
     (case py_key room_id of
        Inl e \<Rightarrow> say (ErrorHandlingMessage e) st
      | Inr k \<Rightarrow>
          (let members = (case rooms st k of None \<Rightarrow> [] | Some m \<Rightarrow> m);
               st1 = st\<lparr>rooms := (rooms st)(k \<mapsto> set_add websocket members)\<rparr>
           in case clients st1 websocket of
                None \<Rightarrow> say (ErrorHandlingMessage KeyError) st1
              | Some info \<Rightarrow>
                  (let st2 = st1\<lparr>clients := (clients st1)
                               (websocket \<mapsto> info\<lparr>client_rooms := set_add k (client_rooms info)\<rparr>)\<rparr>;
                       st3 = say (ClientJoined room_id) st2
                   in send_to_client E st3 websocket
                        (JObj [(''type'', JStr ''joined''), (''room'', room_id)]))))"

definition relayed_types :: "json list" where
  "relayed_types = [JStr ''presence'', JStr ''offer'', JStr ''answer'', JStr ''ice-candidate'']"

definition handle_message :: "env \<Rightarrow> server \<Rightarrow> conn \<Rightarrow> string \<Rightarrow> server" where
  "handle_message E st websocket message =
     (case json_loads E message of
        None \<Rightarrow> say (InvalidJSON message) st
      | Some data \<Rightarrow>
          (case data of
             JObj d \<Rightarrow>
               (let msg_type = dict_get d ''type'' JNull in
                if msg_type = JStr ''join'' then
                  handle_join E st websocket (dict_get d ''room'' (JStr ''default''))
                else if msg_type \<in> set relayed_types then
                  (let room_id = dict_get d ''room'' (JStr ''default'') in
                   case py_key room_id of
                     Inl e \<Rightarrow> say (ErrorHandlingMessage e) st
                   | Inr k \<Rightarrow>
                       if k \<in> dom (rooms st) then
                         (case broadcast_to_room E st room_id data (Some websocket) of
                            Inl e \<Rightarrow> say (ErrorHandlingMessage e) st
                          | Inr st' \<Rightarrow> st')
                       else st)
                else st)
           | _ \<Rightarrow> say (ErrorHandlingMessage AttributeError) st))"

text \<open>\<open>close_connection\<close>; the loop over \<open>client_info['rooms']\<close> first.\<close>

fun leave_rooms :: "conn \<Rightarrow> (key \<rightharpoonup> conn list) \<Rightarrow> key list \<Rightarrow> (key \<rightharpoonup> conn list)" where
  "leave_rooms websocket rs [] = rs"
| "leave_rooms websocket rs (room_id # rest) =
     leave_rooms websocket
       (case rs room_id of
          None \<Rightarrow> rs
        | Some members \<Rightarrow>
            (let members' = set_discard websocket members in
             if members' = [] then rs(room_id := None) else rs(room_id \<mapsto> members')))
       rest"

definition close_connection :: "env \<Rightarrow> server \<Rightarrow> conn \<Rightarrow> server" where
  "close_connection E st websocket =
     (case clients st websocket of
        None \<Rightarrow> st
      | Some client_info \<Rightarrow>
          say ClientDisconnected
            (st\<lparr>rooms := leave_rooms websocket (rooms st) (client_rooms client_info),
                clients := (clients st)(websocket := None),
                closed := closed st @ [websocket]\<rparr>))"

text \<open>
  Storing an accepted connection, as \<open>handle_client\<close> does after the handshake:
  \<open>self.clients[websocket] = {'id': ..., 'reader': ..., 'writer': ..., 'rooms': set()}\<close>.
\<close>

definition register :: "server \<Rightarrow> conn \<Rightarrow> server" where
  "register st websocket =
     say Established
       (st\<lparr>clients := (clients st)(websocket \<mapsto> \<lparr>client_id = websocket, client_rooms = []\<rparr>)\<rparr>)"

text \<open>
  The message loop of \<open>handle_client\<close>. \<open>process_frames\<close> is the inner
  \<open>while buffer:\<close> loop with its dispatch on the opcode. It ends in one of three ways:
  the buffer holds no complete frame any more (\<open>Continue\<close>, back to \<open>reader.read\<close>), a
  close frame was handled (\<open>Return\<close>), or an exception left the loop (\<open>Raise\<close>): from
  \<open>build\<close>, from writing the pong, or from \<open>decode('utf-8')\<close>, none of which is inside a
  \<open>try\<close> of its own.
\<close>

datatype outcome = Continue | Return | Raise error

function process_frames :: "env \<Rightarrow> server \<Rightarrow> conn \<Rightarrow> byte list \<Rightarrow> outcome \<times> server \<times> byte list" where
  "process_frames E st websocket buffer =
     (if buffer = [] then (Continue, st, buffer)
      else case parse buffer of
        None \<Rightarrow> (Continue, st, buffer)
      | Some frame \<Rightarrow>
          (let buffer' = drop (length_consumed frame) buffer in
           if opcode frame = 8 then (Return, close_connection E st websocket, buffer')
           else if opcode frame = 9 then
             (case build (payload frame) 10 of
                Inl e \<Rightarrow> (Raise e, st, buffer')
              | Inr pong \<Rightarrow>
                  (let st' = st\<lparr>writes := writes st @ [(websocket, pong)]\<rparr> in
                   if send_fails E websocket then (Raise ConnectionError, st', buffer')
                   else process_frames E st' websocket buffer'))
           else if opcode frame = 1 then
             (case decode_utf8 (payload frame) of
                Inl e \<Rightarrow> (Raise e, st, buffer')
              | Inr message \<Rightarrow>
                  process_frames E (handle_message E st websocket message) websocket buffer')
           else process_frames E st websocket buffer'))"
  by pat_completeness auto
termination
proof (relation "measure (\<lambda>(E, st, websocket, buffer). length buffer)", goal_cases)
  case 1
  show ?case by simp
next
  case (2 E st websocket buffer frame buffer' pong st')
  then show ?case using parse_consumed_ge [of buffer frame] by simp
next
  case (3 E st websocket buffer frame buffer' message)
  then show ?case using parse_consumed_ge [of buffer frame] by simp
next
  case (4 E st websocket buffer frame buffer')
  then show ?case using parse_consumed_ge [of buffer frame] by simp
qed

declare process_frames.simps [simp del]

text \<open>
  The outer loop, over what \<open>reader.read(4096)\<close> gives: bytes (none at the end of the
  stream) or an exception. When the reads known so far are used up the task waits in
  \<open>read\<close> and the connection stays open with its buffer. Leaving the loop in any way
  runs the \<open>finally\<close> block, which closes the connection; an exception is printed first.
\<close>

datatype status = Open "byte list" | Closed

fun message_loop :: "env \<Rightarrow> server \<Rightarrow> conn \<Rightarrow> byte list \<Rightarrow> (error + byte list) list \<Rightarrow> status \<times> server" where
  "message_loop E st websocket buffer [] = (Open buffer, st)"
| "message_loop E st websocket buffer (Inl e # reads) =
     (Closed, close_connection E (say (ErrorHandlingClient e) st) websocket)"
| "message_loop E st websocket buffer (Inr data # reads) =
     (if data = [] then (Closed, close_connection E st websocket)
      else case process_frames E st websocket (buffer @ data) of
        (Continue, st', buffer') \<Rightarrow> message_loop E st' websocket buffer' reads
      | (Return, st', buffer') \<Rightarrow> (Closed, close_connection E st' websocket)
      | (Raise e, st', buffer') \<Rightarrow>
          (Closed, close_connection E (say (ErrorHandlingClient e) st') websocket))"

text \<open>\<open>handle_client\<close> from the point where the handshake has succeeded: the
  connection is stored in the client registry, then the message loop runs.\<close>

definition serve :: "env \<Rightarrow> server \<Rightarrow> conn \<Rightarrow> (error + byte list) list \<Rightarrow> status \<times> server" where
  "serve E st websocket reads = message_loop E (register st websocket) websocket [] reads"

section \<open>Reachable states and the registry invariant\<close>

text \<open>
  The registries change only in three places, each of which runs without suspending:
  where \<open>handle_client\<close> stores an accepted connection, in the \<open>join\<close> branch of
  \<open>handle_message\<close>, and in \<open>close_connection\<close>. Whatever the interleaving of the
  connection tasks, the registries therefore pass through the states reached by running
  these operations one after the other; a message is handled only for a connection that
  its own task has stored and not yet closed.
\<close>

inductive reachable :: "env \<Rightarrow> server \<Rightarrow> bool" for E :: env where
  init: "reachable E init_server"
| accept: "reachable E st \<Longrightarrow> websocket \<notin> dom (clients st) \<Longrightarrow> reachable E (register st websocket)"
| message: "reachable E st \<Longrightarrow> websocket \<in> dom (clients st) \<Longrightarrow>
     reachable E (handle_message E st websocket message)"
| close: "reachable E st \<Longrightarrow> reachable E (close_connection E st websocket)"

definition member_of_own_rooms :: "server \<Rightarrow> bool" where
  "member_of_own_rooms st \<longleftrightarrow>
     (\<forall>c info. clients st c = Some info \<longrightarrow>
        (\<forall>k\<in>set (client_rooms info). \<exists>m. rooms st k = Some m \<and> c \<in> set m))"

definition members_registered :: "server \<Rightarrow> bool" where
  "members_registered st \<longleftrightarrow>
     (\<forall>k m. rooms st k = Some m \<longrightarrow>
        (\<forall>c\<in>set m. \<exists>info. clients st c = Some info \<and> k \<in> set (client_rooms info)))"

definition rooms_proper :: "server \<Rightarrow> bool" where
  "rooms_proper st \<longleftrightarrow> (\<forall>k m. rooms st k = Some m \<longrightarrow> distinct m \<and> m \<noteq> [])"

definition consistent :: "server \<Rightarrow> bool" where
  "consistent st \<longleftrightarrow> member_of_own_rooms st \<and> members_registered st \<and> rooms_proper st"


section \<open>A small server run\<close>

text \<open>Two connections are accepted and join room \<open>a\<close>, one after the other; the
  concrete states are used to instantiate the theorems below.\<close>

definition example_env :: env where
  "example_env =
     \<lparr>json_loads = (\<lambda>s.
         if s = ''J'' then Some (JObj [(''type'', JStr ''join''), (''room'', JStr ''a'')])
         else if s = ''P'' then Some (JObj [(''type'', JStr ''presence''), (''room'', JStr ''a'')])
         else if s = ''X'' then Some (JObj [(''type'', JStr ''bye'')])
         else None),
       json_dumps = (\<lambda>j. ''{}''),
       send_fails = (\<lambda>c. False)\<rparr>"

definition example_state1 :: server where
  "example_state1 = handle_message example_env (register (register init_server 1) 2) 1 ''J''"

definition example_state :: server where
  "example_state = handle_message example_env example_state1 2 ''J''"


section \<open>Properties of the frame codec\<close>

subsection \<open>Building and parsing\<close>

lemma unpack_be_append: "unpack_be (bs @ [b]) = unpack_be bs * 256 + unat b"
  by (simp add: unpack_be_def)

lemma unpack_pack_be: "n < 256 ^ k \<Longrightarrow> unpack_be (pack_be k n) = n"
proof (induction k arbitrary: n)
  case 0 then show ?case by (simp add: unpack_be_def)
next
  case (Suc k)
  have "n div 256 < 256 ^ k" using Suc.prems by (simp add: less_mult_imp_div_less mult.commute)
  then have "unpack_be (pack_be k (n div 256)) = n div 256" by (rule Suc.IH)
  moreover have "unat (of_nat (n mod 256) :: byte) = n mod 256"
    by (simp add: unat_of_nat)
  ultimately show ?case by (simp add: unpack_be_append)
qed

lemma length_pack_be: "length (pack_be k n) = k"
  by (induction k arbitrary: n) auto


lemma hdr_op: "0 \<le> op \<Longrightarrow> op < 16 \<Longrightarrow> (128 OR op) AND 15 = (op::int)"
proof -
  assume a: "0 \<le> op" "op < 16"
  have "op AND 15 = take_bit 4 op" by (simp add: take_bit_eq_mask mask_eq_exp_minus_1)
  also have "\<dots> = op" using a by (simp add: take_bit_int_eq_self)
  finally show ?thesis by (simp add: bit.conj_disj_distrib2)
qed
lemma and128: "0 \<le> op \<Longrightarrow> op < 128 \<Longrightarrow> op AND 128 = (0::int)"
proof -
  assume a: "0 \<le> op" "op < 128"
  have "\<not> bit op 7" using a by (simp add: bit_iff_odd)
  then have "op AND 2 ^ 7 = 0" using and_exp_eq_0_iff_not_bit [of op 7] by blast
  then show ?thesis by simp
qed
lemma hdr_fin: "0 \<le> op \<Longrightarrow> op < 16 \<Longrightarrow> drop_bit 7 ((128 OR op) AND 128) = (1::int)"
  by (simp add: bit.conj_disj_distrib2 and128 drop_bit_eq_div)
lemma hdr_rng: "0 \<le> op \<Longrightarrow> op < 16 \<Longrightarrow> 0 \<le> 128 OR op \<and> 128 OR op < (256::int)"
  using OR_upper [of 128 8 op] by simp
lemma and127: "0 \<le> n \<Longrightarrow> n < 128 \<Longrightarrow> n AND 127 = (n::int)"
proof -
  assume a: "0 \<le> n" "n < 128"
  have "n AND 127 = take_bit 7 n" by (simp add: take_bit_eq_mask mask_eq_exp_minus_1)
  also have "\<dots> = n" using a by (simp add: take_bit_int_eq_self)
  finally show ?thesis .
qed
lemma uint_byte_of_nat: "n < 256 \<Longrightarrow> uint (of_nat n :: byte) = int n"
  by (simp add: uint_nat unat_of_nat)
lemma uint_byte_of_int: "0 \<le> i \<Longrightarrow> i < 256 \<Longrightarrow> uint (word_of_int i :: byte) = i"
  by (simp add: uint_word_of_int take_bit_int_eq_self)

lemma drop7: "0 \<le> op \<Longrightarrow> op < 128 \<Longrightarrow> drop_bit 7 op = (0::int)"
  by (simp add: drop_bit_eq_div)

lemma slice_mid: "length pre = a \<Longrightarrow> length mid = b - a \<Longrightarrow> slice (pre @ mid @ post) a b = mid"
  by (simp add: slice_def)

lemma ph_small:
  assumes "0 \<le> opc" "opc < 16" "length pl < 126"
  shows "parse_header ([word_of_int (128 OR opc), of_nat (length pl)] @ pl) = Some (1, opc, 0, length pl, 2)"
proof -
  have r: "0 \<le> 128 OR opc" "128 OR opc < 256" using hdr_rng assms by auto
  have d: "drop_bit 7 opc = 0" "drop_bit 7 (int (length pl)) = 0" using assms by (simp_all add: drop7)
  have u: "uint (of_nat (length pl) :: byte) = int (length pl)" using assms by (simp add: uint_byte_of_nat)
  have m: "int (length pl) AND 128 = 0" using assms by (simp add: and128)
  have l: "int (length pl) AND 127 = int (length pl)" using assms by (simp add: and127)
  show ?thesis using assms
    by (simp add: parse_header_def Let_def uint_byte_of_int r u m l d hdr_op hdr_fin)
qed

lemma ph_mid:
  assumes "0 \<le> opc" "opc < 16" "126 \<le> length pl" "length pl < 65536"
  shows "parse_header ([word_of_int (128 OR opc), 126] @ pack_be 2 (length pl) @ pl) = Some (1, opc, 0, length pl, 4)"
proof -
  have r: "0 \<le> 128 OR opc" "128 OR opc < 256" using hdr_rng assms by auto
  have d: "drop_bit 7 opc = 0" using assms by (simp_all add: drop7)
  have s: "slice (word_of_int (128 OR opc) # 126 # pack_be 2 (length pl) @ pl) 2 4 = pack_be 2 (length pl)"
    using slice_mid [of "[word_of_int (128 OR opc), 126]" 2 "pack_be 2 (length pl)" 4 pl]
    by (simp add: length_pack_be)
  have v: "unpack_be (pack_be 2 (length pl)) = length pl"
    using assms by (intro unpack_pack_be) simp
  show ?thesis using assms
    by (simp add: parse_header_def Let_def uint_byte_of_int r d hdr_op hdr_fin length_pack_be s v)
qed

lemma ph_big:
  assumes "0 \<le> opc" "opc < 16" "65536 \<le> length pl" "length pl < 2 ^ 64"
  shows "parse_header ([word_of_int (128 OR opc), 127] @ pack_be 8 (length pl) @ pl) = Some (1, opc, 0, length pl, 10)"
proof -
  have r: "0 \<le> 128 OR opc" "128 OR opc < 256" using hdr_rng assms by auto
  have d: "drop_bit 7 opc = 0" using assms by (simp_all add: drop7)
  have s: "slice (word_of_int (128 OR opc) # 127 # pack_be 8 (length pl) @ pl) 2 10 = pack_be 8 (length pl)"
    using slice_mid [of "[word_of_int (128 OR opc), 127]" 2 "pack_be 8 (length pl)" 10 pl]
    by (simp add: length_pack_be)
  have v: "unpack_be (pack_be 8 (length pl)) = length pl"
    using assms by (intro unpack_pack_be) simp
  show ?thesis using assms
    by (simp add: parse_header_def Let_def uint_byte_of_int r d hdr_op hdr_fin length_pack_be s v)
qed

text \<open>
  Claim C2. For every payload and every opcode (a four-bit value, \<open>0 \<le> opc < 16\<close>),
  \<open>build\<close> succeeds and \<open>parse\<close> of the built frame succeeds with the original
  payload, the same opcode, \<open>fin = 1\<close> and a consumed length equal to the length of the
  whole frame. The three length tiers (below 126, below 65536, and up to the 64-bit limit
  of \<open>struct.pack('>Q', _)\<close>) are all covered.
\<close>

theorem build_parse_roundtrip:
  assumes "0 \<le> opc" "opc < 16" "length pl < 2 ^ 64"
  shows "\<exists>f. build pl opc = Inr f \<and>
     parse f = Some \<lparr>fin = 1, opcode = opc, payload = pl, length_consumed = length f\<rparr>"
proof -
  have r: "0 \<le> 128 OR opc" "128 OR opc < 256" using hdr_rng assms by auto
  consider (small) "length pl < 126" | (mid) "126 \<le> length pl" "length pl < 65536"
    | (big) "65536 \<le> length pl" by linarith
  then show ?thesis
  proof cases
    case small
    then have "build pl opc = Inr ([word_of_int (128 OR opc), of_nat (length pl)] @ pl)"
      using r by (simp add: build_def Let_def)
    moreover have "parse ([word_of_int (128 OR opc), of_nat (length pl)] @ pl) =
       Some \<lparr>fin = 1, opcode = opc, payload = pl, length_consumed = 2 + length pl\<rparr>"
      by (simp only: parse_def ph_small [OF assms(1,2) small]) (simp add: slice_def)
    ultimately show ?thesis by simp
  next
    case mid
    then have "build pl opc = Inr ([word_of_int (128 OR opc), 126] @ pack_be 2 (length pl) @ pl)"
      using r by (simp add: build_def Let_def)
    moreover have "parse ([word_of_int (128 OR opc), 126] @ pack_be 2 (length pl) @ pl) =
       Some \<lparr>fin = 1, opcode = opc, payload = pl, length_consumed = 4 + length pl\<rparr>"
      by (simp only: parse_def ph_mid [OF assms(1,2) mid]) (simp add: slice_def length_pack_be)
    ultimately show ?thesis by (simp add: length_pack_be)
  next
    case big
    then have "build pl opc = Inr ([word_of_int (128 OR opc), 127] @ pack_be 8 (length pl) @ pl)"
      using r assms by (simp add: build_def Let_def)
    moreover have "parse ([word_of_int (128 OR opc), 127] @ pack_be 8 (length pl) @ pl) =
       Some \<lparr>fin = 1, opcode = opc, payload = pl, length_consumed = 10 + length pl\<rparr>"
      by (simp only: parse_def ph_big [OF assms(1,2) big assms(3)]) (simp add: slice_def length_pack_be)
    ultimately show ?thesis by (simp add: length_pack_be)
  qed
qed

theorem build_parse_roundtrip_witness:
  "(0::int) \<le> 1 \<and> (1::int) < 16 \<and> length [72, 105 :: byte] < 2 ^ 64 \<and>
   (\<exists>f. build [72, 105] 1 = Inr f \<and>
      parse f = Some \<lparr>fin = 1, opcode = 1, payload = [72, 105], length_consumed = length f\<rparr>)"
  using build_parse_roundtrip [of 1 "[72, 105]"] by simp

subsection \<open>Incomplete input\<close>

lemma drain_None: "parse b = None \<Longrightarrow> drain_frames b = ([], b)"
  by (subst drain_frames.simps) simp

lemma drain_Nil: "drain_frames [] = ([], [])"
  by (subst drain_frames.simps) simp

lemma parse_Nil: "parse [] = None"
  by (simp add: parse_def parse_header_def)

lemma drain_whole:
  assumes "parse f = Some fr" "length_consumed fr = length f"
  shows "drain_frames f = ([fr], [])"
proof -
  have "f \<noteq> []" using assms parse_Nil by auto
  then show ?thesis using assms by (subst drain_frames.simps) (simp add: drain_Nil)
qed

lemma feed_all_empty_chunks:
  "concat cs = [] \<Longrightarrow> feed_all [] cs = (replicate (length cs) [], [])"
  by (induction cs) (auto simp: drain_Nil)

lemma feed_all_incomplete:
  assumes "parse f = Some fr"
  shows "length (buffer @ concat cs) < length_consumed fr \<Longrightarrow> buffer @ concat cs @ rest = f \<Longrightarrow>
     feed_all buffer cs = (replicate (length cs) [], buffer @ concat cs)"
proof (induction cs arbitrary: buffer)
  case Nil then show ?case by simp
next
  case (Cons data cs)
  define n where "n = length (buffer @ data)"
  have t: "take n f = buffer @ data"
    unfolding n_def using Cons.prems(2) by (metis append.assoc append_eq_conv_conj concat.simps(2))
  have "n < length_consumed fr" unfolding n_def using Cons.prems(1) by simp
  then have "parse (take n f) = None" by (rule parse_take_None [OF assms])
  then have "parse (buffer @ data) = None" by (simp only: t)
  then have d: "drain_frames (buffer @ data) = ([], buffer @ data)" by (rule drain_None)
  have "feed_all (buffer @ data) cs = (replicate (length cs) [], (buffer @ data) @ concat cs)"
    using Cons.prems by (intro Cons.IH) simp_all
  then show ?case using d by simp
qed

lemma feed_all_complete:
  assumes "parse f = Some fr" "length_consumed fr = length f"
  shows "length buffer < length f \<Longrightarrow> buffer @ concat cs = f \<Longrightarrow>
     concat (fst (feed_all buffer cs)) = [fr] \<and> snd (feed_all buffer cs) = []"
proof (induction cs arbitrary: buffer)
  case Nil then show ?case by simp
next
  case (Cons data cs)
  show ?case
  proof (cases "length (buffer @ data) < length f")
    case True
    define n where "n = length (buffer @ data)"
    have t: "take n f = buffer @ data"
      unfolding n_def using Cons.prems(2) by (metis append.assoc append_eq_conv_conj concat.simps(2))
    have "n < length_consumed fr" unfolding n_def using True assms(2) by simp
    then have "parse (take n f) = None" by (rule parse_take_None [OF assms(1)])
    then have "parse (buffer @ data) = None" by (simp only: t)
    then have d: "drain_frames (buffer @ data) = ([], buffer @ data)" by (rule drain_None)
    have "concat (fst (feed_all (buffer @ data) cs)) = [fr] \<and> snd (feed_all (buffer @ data) cs) = []"
      using True Cons.prems by (intro Cons.IH) simp_all
    then show ?thesis using d by (simp add: split_def)
  next
    case False
    have "length (buffer @ data) + length (concat cs) = length f"
      using Cons.prems(2) by (metis append.assoc concat.simps(2) length_append)
    then have "length (concat cs) = 0" using False by linarith
    then have e: "concat cs = []" using length_0_conv by blast
    have "buffer @ data @ concat cs = f" using Cons.prems(2) by simp
    then have f: "buffer @ data = f" by (simp only: e append_Nil2)
    show ?thesis using drain_whole [OF assms] feed_all_empty_chunks [OF e] f
      by (simp add: split_def)
  qed
qed

text \<open>
  Claim C3. Let \<open>f\<close> be a well-formed frame: \<open>parse\<close> accepts it and consumes all of
  it. Then \<open>parse\<close> returns \<open>None\<close> on every strict prefix of \<open>f\<close>; and when \<open>f\<close> is
  cut into chunks \<open>cs\<close> in any way and fed to the read loop chunk by chunk, every read
  after which bytes are still missing yields no frame and keeps all bytes received so
  far in the buffer, while the reads together yield exactly the one frame and leave the
  buffer empty.
\<close>

theorem parse_streaming:
  assumes "parse f = Some fr" and "length_consumed fr = length f"
  shows "(\<forall>n<length f. parse (take n f) = None) \<and>
         (\<forall>cs. concat cs = f \<longrightarrow>
            (\<forall>k\<le>length cs. length (concat (take k cs)) < length f \<longrightarrow>
                 feed_all [] (take k cs) = (replicate k [], concat (take k cs))) \<and>
            concat (fst (feed_all [] cs)) = [fr] \<and> snd (feed_all [] cs) = [])"
proof (intro conjI allI impI)
  fix n assume "n < length f"
  then show "parse (take n f) = None" using parse_take_None [OF assms(1)] assms(2) by simp
next
  fix cs k assume c: "concat cs = f" "k \<le> length cs" "length (concat (take k cs)) < length f"
  have "[] @ concat (take k cs) @ concat (drop k cs) = f"
    using c(1) by (metis append_Nil append_take_drop_id concat_append)
  then have "feed_all [] (take k cs) = (replicate (length (take k cs)) [], [] @ concat (take k cs))"
    using c assms(2) by (intro feed_all_incomplete [OF assms(1), where rest = "concat (drop k cs)"]) simp_all
  then show "feed_all [] (take k cs) = (replicate k [], concat (take k cs))" using c(2) by simp
next
  fix cs assume c: "concat cs = f"
  have "length ([] :: byte list) < length f" using parse_consumed_ge [OF assms(1)] assms(2) by (cases f) simp_all
  then have "concat (fst (feed_all [] cs)) = [fr] \<and> snd (feed_all [] cs) = []"
    using c by (intro feed_all_complete [OF assms]) simp_all
  then show "concat (fst (feed_all [] cs)) = [fr]" "snd (feed_all [] cs) = []" by simp_all
qed

theorem parse_streaming_witness:
  "parse [129, 2, 72, 105] = Some \<lparr>fin = 1, opcode = 1, payload = [72, 105], length_consumed = 4\<rparr> \<and>
   length_consumed \<lparr>fin = 1, opcode = 1, payload = [72, 105 :: byte], length_consumed = 4\<rparr>
     = length [129, 2, 72, 105 :: byte] \<and>
   parse (take 3 [129, 2, 72, 105]) = None \<and>
   feed_all [] (take 2 [[129], [2, 72], [105]]) = (replicate 2 [], concat (take 2 [[129], [2, 72], [105]])) \<and>
   concat (fst (feed_all [] [[129], [2, 72], [105]]))
     = [\<lparr>fin = 1, opcode = 1, payload = [72, 105], length_consumed = 4\<rparr>] \<and>
   snd (feed_all [] [[129], [2, 72], [105]]) = []"
proof -
  let ?f = "[129, 2, 72, 105 :: byte]"
  let ?fr = "\<lparr>fin = 1, opcode = 1, payload = [72, 105 :: byte], length_consumed = 4\<rparr>"
  have p: "parse ?f = Some ?fr"
    by (simp add: parse_def parse_header_def Let_def slice_def)
  have l: "length_consumed ?fr = length ?f" by simp
  note t = parse_streaming [OF p l]
  have a0: "\<forall>n<length ?f. parse (take n ?f) = None" using t by (rule conjunct1)
  have "(3::nat) < length ?f" by simp
  then have a: "parse (take 3 ?f) = None" using a0 by blast
  have c: "concat [[129], [2, 72], [105 :: byte]] = ?f" by simp
  have t2: "\<forall>cs. concat cs = ?f \<longrightarrow>
            (\<forall>k\<le>length cs. length (concat (take k cs)) < length ?f \<longrightarrow>
                 feed_all [] (take k cs) = (replicate k [], concat (take k cs))) \<and>
            concat (fst (feed_all [] cs)) = [?fr] \<and> snd (feed_all [] cs) = []"
    using t by (rule conjunct2)
  from t2 c have b: "(\<forall>k\<le>length [[129], [2, 72], [105 :: byte]].
      length (concat (take k [[129], [2, 72], [105 :: byte]])) < length ?f \<longrightarrow>
        feed_all [] (take k [[129], [2, 72], [105]]) = (replicate k [], concat (take k [[129], [2, 72], [105]]))) \<and>
      concat (fst (feed_all [] [[129], [2, 72], [105]])) = [?fr] \<and>
      snd (feed_all [] [[129], [2, 72], [105]]) = []" by blast
  then have "feed_all [] (take 2 [[129], [2, 72], [105 :: byte]])
      = (replicate 2 [], concat (take 2 [[129], [2, 72], [105]]))"
  proof -
    have "(2::nat) \<le> length [[129], [2, 72], [105 :: byte]]" by simp
    moreover have "length (concat (take 2 [[129], [2, 72], [105 :: byte]])) < length ?f" by simp
    ultimately show ?thesis using b by blast
  qed
  with p l a b show ?thesis by blast
qed

subsection \<open>Masked frames\<close>

lemma mask_bit_iff: "drop_bit 7 ((x::int) AND 128) \<noteq> 0 \<longleftrightarrow> x AND 128 \<noteq> 0"
proof -
  have "drop_bit 7 (x AND 128) = drop_bit 7 x AND 1" by simp
  also have "\<dots> = drop_bit 7 x mod 2" by (simp add: and_one_eq)
  finally have "drop_bit 7 (x AND 128) \<noteq> 0 \<longleftrightarrow> bit x 7"
    by (simp add: bit_iff_odd_drop_bit odd_iff_mod_2_eq_one)
  moreover have "x AND 128 \<noteq> 0 \<longleftrightarrow> bit x 7"
    using and_exp_eq_0_iff_not_bit [of x 7] by simp
  ultimately show ?thesis by simp
qed

lemma parse_header_fields:
  assumes "parse_header data = Some (a, b, c, d, off)"
  shows "c = drop_bit 7 (uint (data ! 1) AND 128) \<and>
         off = (if uint (data ! 1) AND 127 = 126 then 4 else if uint (data ! 1) AND 127 = 127 then 10 else 2)"
  using assms by (simp add: parse_header_def Let_def nat_eq_iff split: if_splits)

lemma nth_slice: "i < b - a \<Longrightarrow> b \<le> length xs \<Longrightarrow> slice xs a b ! i = xs ! (a + i)"
  by (simp add: slice_def)

lemma length_slice: "b \<le> length xs \<Longrightarrow> length (slice xs a b) = b - a"
  by (simp add: slice_def)

lemma nth_unmask: "i < length pl \<Longrightarrow> unmask k pl ! i = pl ! i XOR k ! (i mod 4)"
  by (simp add: unmask_def)

lemma length_unmask: "length (unmask k pl) = length pl"
  by (simp add: unmask_def)

text \<open>
  Claim C4. When the mask flag (the top bit of the second byte) is set and \<open>parse\<close>
  succeeds, the four bytes at \<open>off\<close>, directly behind the length field, are the masking
  key: byte \<open>i\<close> of the returned payload is the raw payload byte \<open>i\<close> XOR key byte
  \<open>i mod 4\<close>, and the consumed length counts header, length field, the four key bytes
  and the payload. The returned frame has no field for the key.
\<close>

theorem parse_masked:
  assumes "parse data = Some fr" and "uint (data ! 1) AND 128 \<noteq> 0"
    and "off = (if uint (data ! 1) AND 127 = 126 then 4
                else if uint (data ! 1) AND 127 = 127 then 10 else 2)"
  shows "off + 4 + length (payload fr) = length_consumed fr \<and>
         length_consumed fr \<le> length data \<and>
         (\<forall>i<length (payload fr).
            payload fr ! i = data ! (off + 4 + i) XOR data ! (off + i mod 4))"
proof -
  obtain a b c d off0 where h: "parse_header data = Some (a, b, c, d, off0)"
    using assms(1) by (rule parse_header_of_parse)
  have c: "c \<noteq> 0" and o: "off0 = off"
    using parse_header_fields [OF h] assms(2,3) mask_bit_iff [of "uint (data ! 1)"] by simp_all
  have len: "\<not> length data < off + 4 + d"
    using assms(1) h c o by (simp add: parse_def Let_def split: if_splits)
  have k: "length (slice data off (off + 4)) = 4" using len by (simp add: length_slice)
  then have kne: "slice data off (off + 4) \<noteq> []" by auto
  have fr: "fr = \<lparr>fin = a, opcode = b,
              payload = unmask (slice data off (off + 4)) (slice data (off + 4) (off + 4 + d)),
              length_consumed = off + 4 + d\<rparr>"
    using assms(1) h c o len kne by (simp add: parse_def Let_def)
  have lp: "length (payload fr) = d" using len by (simp add: fr length_unmask length_slice)
  have "payload fr ! i = data ! (off + 4 + i) XOR data ! (off + i mod 4)" if "i < length (payload fr)" for i
  proof -
    have i: "i < d" using that lp by simp
    have "payload fr ! i = slice data (off + 4) (off + 4 + d) ! i XOR slice data off (off + 4) ! (i mod 4)"
      using i len by (simp add: fr nth_unmask length_slice)
    moreover have "slice data (off + 4) (off + 4 + d) ! i = data ! (off + 4 + i)"
      using i len by (intro nth_slice) simp_all
    moreover have "slice data off (off + 4) ! (i mod 4) = data ! (off + i mod 4)"
      using len by (intro nth_slice) simp_all
    ultimately show ?thesis by simp
  qed
  then show ?thesis using lp len by (simp add: fr)
qed

theorem parse_masked_witness:
  "parse [129, 130, 1, 2, 3, 4, 73, 107] =
      Some \<lparr>fin = 1, opcode = 1, payload = [72, 105], length_consumed = 8\<rparr> \<and>
   uint ([129, 130, 1, 2, 3, 4, 73, 107 :: byte] ! 1) AND 128 \<noteq> 0 \<and>
   2 + 4 + length [72, 105 :: byte] = (8::nat) \<and>
   [72, 105 :: byte] ! 1 = [129, 130, 1, 2, 3, 4, 73, 107] ! (2 + 4 + 1) XOR [129, 130, 1, 2, 3, 4, 73, 107] ! (2 + 1 mod 4)"
proof -
  let ?d = "[129, 130, 1, 2, 3, 4, 73, 107 :: byte]"
  let ?fr = "\<lparr>fin = 1, opcode = 1, payload = [72, 105 :: byte], length_consumed = 8\<rparr>"
  have p: "parse ?d = Some ?fr"
    by (simp add: parse_def parse_header_def Let_def slice_def unmask_def upt_rec)
  have m: "uint (?d ! 1) AND 128 \<noteq> 0" by simp
  have o: "(2::nat) = (if uint (?d ! 1) AND 127 = 126 then 4
                else if uint (?d ! 1) AND 127 = 127 then 10 else 2)" by simp
  from parse_masked [OF p m o] p m show ?thesis by simp
qed

section \<open>Properties of the server\<close>

subsection \<open>Effects of the operations on the registries\<close>

lemma say_fields [simp]:
  "clients (say p st) = clients st" "rooms (say p st) = rooms st"
  "writes (say p st) = writes st" "closed (say p st) = closed st"
  "console (say p st) = console st @ [p]"
  by (simp_all add: say_def)

lemma send_to_client_fields [simp]:
  "clients (send_to_client E st ws d) = clients st"
  "rooms (send_to_client E st ws d) = rooms st"
  "closed (send_to_client E st ws d) = closed st"
  by (simp_all add: send_to_client_def Let_def split: sum.splits)

lemma broadcast_loop_fields [simp]:
  "clients (broadcast_loop E fr ex st ms) = clients st"
  "rooms (broadcast_loop E fr ex st ms) = rooms st"
  "closed (broadcast_loop E fr ex st ms) = closed st"
  by (induction ms arbitrary: st) (simp_all add: Let_def)


lemma broadcast_to_room_fields:
  assumes "broadcast_to_room E st room_id data ex = Inr st'"
  shows "clients st' = clients st" "rooms st' = rooms st" "closed st' = closed st"
  using assms by (auto simp: broadcast_to_room_def Let_def split: sum.splits option.splits)

lemma handle_join_registered:
  assumes "clients st ws = Some info" "py_key room_id = Inr k"
  shows "clients (handle_join E st ws room_id) =
           (clients st)(ws \<mapsto> info\<lparr>client_rooms := set_add k (client_rooms info)\<rparr>)"
    and "rooms (handle_join E st ws room_id) =
           (rooms st)(k \<mapsto> set_add ws (case rooms st k of None \<Rightarrow> [] | Some m \<Rightarrow> m))"
    and "closed (handle_join E st ws room_id) = closed st"
  using assms by (simp_all add: handle_join_def Let_def)

lemma handle_join_unhashable:
  assumes "py_key room_id = Inl e"
  shows "handle_join E st ws room_id = say (ErrorHandlingMessage e) st"
  using assms by (simp add: handle_join_def)

text \<open>What a message can do to the registries: nothing, or the update of a join.\<close>

lemma handle_message_registries:
  assumes "clients st ws = Some info"
  shows "(clients (handle_message E st ws msg) = clients st \<and>
          rooms (handle_message E st ws msg) = rooms st) \<or>
         (\<exists>k. clients (handle_message E st ws msg) =
                 (clients st)(ws \<mapsto> info\<lparr>client_rooms := set_add k (client_rooms info)\<rparr>) \<and>
              rooms (handle_message E st ws msg) =
                 (rooms st)(k \<mapsto> set_add ws (case rooms st k of None \<Rightarrow> [] | Some m \<Rightarrow> m)))"
proof (cases "json_loads E msg")
  case None then show ?thesis by (simp add: handle_message_def)
next
  case (Some data)
  show ?thesis
  proof (cases data)
    case (JObj d)
    let ?room = "dict_get d ''room'' (JStr ''default'')"
    consider (join) "dict_get d ''type'' JNull = JStr ''join''"
      | (relay) "dict_get d ''type'' JNull \<noteq> JStr ''join''" "dict_get d ''type'' JNull \<in> set relayed_types"
      | (other) "dict_get d ''type'' JNull \<noteq> JStr ''join''" "dict_get d ''type'' JNull \<notin> set relayed_types"
      by blast
    then show ?thesis
    proof cases
      case join
      then have hm: "handle_message E st ws msg = handle_join E st ws ?room"
        using Some JObj by (simp add: handle_message_def Let_def)
      show ?thesis
      proof (cases "py_key ?room")
        case (Inl e) then show ?thesis by (simp add: hm handle_join_unhashable)
      next
        case (Inr k) then show ?thesis
          using handle_join_registered [OF assms Inr, of E] by (auto simp: hm)
      qed
    next
      case relay
      show ?thesis
      proof (cases "py_key ?room")
        case (Inl e) then show ?thesis using Some JObj relay
          by (simp add: handle_message_def Let_def)
      next
        case (Inr k)
        show ?thesis
        proof (cases "broadcast_to_room E st ?room data (Some ws)")
          case (Inl e) then show ?thesis using Some JObj relay Inr
            by (simp add: handle_message_def Let_def)
        next
          case r: (Inr st')
          then show ?thesis using Some JObj relay Inr broadcast_to_room_fields [OF r]
            by (simp add: handle_message_def Let_def)
        qed
      qed
    next
      case other then show ?thesis using Some JObj by (simp add: handle_message_def Let_def)
    qed
  qed (simp_all add: handle_message_def Some)
qed

lemma leave_rooms_apply:
  "leave_rooms ws rs ks k =
     (if k \<in> set ks then
        (case rs k of None \<Rightarrow> None
         | Some m \<Rightarrow> if removeAll ws m = [] then None else Some (removeAll ws m))
      else rs k)"
proof (induction ks arbitrary: rs)
  case Nil show ?case by simp
next
  case (Cons a ks)
  show ?case
    by (simp add: Cons.IH set_discard_def Let_def split: option.splits)
qed

lemma close_connection_registered:
  assumes "clients st ws = Some info"
  shows "clients (close_connection E st ws) = (clients st)(ws := None)"
    and "rooms (close_connection E st ws) = leave_rooms ws (rooms st) (client_rooms info)"
    and "closed (close_connection E st ws) = closed st @ [ws]"
    and "writes (close_connection E st ws) = writes st"
  using assms by (simp_all add: close_connection_def)

lemma close_connection_absent: "clients st ws = None \<Longrightarrow> close_connection E st ws = st"
  by (simp add: close_connection_def)

lemma consistent_init: "consistent init_server"
  by (simp add: consistent_def member_of_own_rooms_def members_registered_def rooms_proper_def
      init_server_def)

lemma consistent_register:
  assumes "consistent st" "ws \<notin> dom (clients st)"
  shows "consistent (register st ws)"
proof -
  have m: "member_of_own_rooms st" and r: "members_registered st" and p: "rooms_proper st"
    using assms(1) by (simp_all add: consistent_def)
  have "member_of_own_rooms (register st ws)"
    using m by (auto simp: member_of_own_rooms_def register_def)
  moreover have "members_registered (register st ws)"
    using r assms(2) unfolding members_registered_def register_def
    by (auto simp: domIff) (metis option.distinct(1))+
  moreover have "rooms_proper (register st ws)"
    using p by (simp add: rooms_proper_def register_def)
  ultimately show ?thesis by (simp add: consistent_def)
qed

lemma set_set_add [simp]: "set (set_add x xs) = insert x (set xs)"
  by (auto simp: set_add_def)

lemma distinct_set_add [simp]: "distinct (set_add x xs) = distinct xs"
  by (auto simp: set_add_def)

lemma set_add_not_Nil [simp]: "set_add x xs \<noteq> []"
  by (auto simp: set_add_def)

lemma consistent_join_update:
  assumes "consistent st" "clients st ws = Some info"
    and c: "clients st' = (clients st)(ws \<mapsto> info\<lparr>client_rooms := set_add k (client_rooms info)\<rparr>)"
    and r: "rooms st' = (rooms st)(k \<mapsto> set_add ws (case rooms st k of None \<Rightarrow> [] | Some m \<Rightarrow> m))"
  shows "consistent st'"
proof -
  have m: "member_of_own_rooms st" and g: "members_registered st" and p: "rooms_proper st"
    using assms(1) by (simp_all add: consistent_def)
  have "member_of_own_rooms st'"
    unfolding member_of_own_rooms_def
  proof (intro allI impI ballI)
    fix c' info' k' assume a: "clients st' c' = Some info'" "k' \<in> set (client_rooms info')"
    show "\<exists>m. rooms st' k' = Some m \<and> c' \<in> set m"
    proof (cases "k' = k")
      case True
      show ?thesis
      proof (cases "c' = ws")
        case True then show ?thesis using \<open>k' = k\<close> by (simp add: r)
      next
        case False
        then have "clients st c' = Some info'" using a(1) by (simp add: c)
        then obtain m0 where "rooms st k = Some m0" "c' \<in> set m0"
          using m a(2) True unfolding member_of_own_rooms_def by blast
        then show ?thesis using True by (simp add: r)
      qed
    next
      case False
      have "\<exists>i. clients st c' = Some i \<and> k' \<in> set (client_rooms i)"
        using a False assms(2) by (cases "c' = ws") (auto simp: c)
      then obtain m0 where "rooms st k' = Some m0" "c' \<in> set m0"
        using m unfolding member_of_own_rooms_def by blast
      then show ?thesis using False by (simp add: r)
    qed
  qed
  moreover have "members_registered st'"
    unfolding members_registered_def
  proof (intro allI impI ballI)
    fix k' m' c' assume a: "rooms st' k' = Some m'" "c' \<in> set m'"
    show "\<exists>i. clients st' c' = Some i \<and> k' \<in> set (client_rooms i)"
    proof (cases "c' = ws")
      case True
      show ?thesis
      proof (cases "k' = k")
        case True then show ?thesis using \<open>c' = ws\<close> by (simp add: c)
      next
        case False
        then have "rooms st k' = Some m'" using a(1) by (simp add: r)
        then have "k' \<in> set (client_rooms info)"
          using g a(2) True assms(2) unfolding members_registered_def by fastforce
        then show ?thesis using True by (simp add: c)
      qed
    next
      case False
      have "\<exists>m0. rooms st k' = Some m0 \<and> c' \<in> set m0"
        using a False by (cases "k' = k") (auto simp: r split: option.splits)
      then obtain i where "clients st c' = Some i" "k' \<in> set (client_rooms i)"
        using g unfolding members_registered_def by blast
      then show ?thesis using False by (simp add: c)
    qed
  qed
  moreover have "rooms_proper st'"
    using p unfolding rooms_proper_def by (auto simp: r split: option.splits)
  ultimately show ?thesis by (simp add: consistent_def)
qed

lemma consistent_unchanged:
  "consistent st \<Longrightarrow> clients st' = clients st \<Longrightarrow> rooms st' = rooms st \<Longrightarrow> consistent st'"
  by (simp add: consistent_def member_of_own_rooms_def members_registered_def rooms_proper_def)

lemma consistent_handle_message:
  assumes "consistent st" "ws \<in> dom (clients st)"
  shows "consistent (handle_message E st ws msg)"
proof -
  obtain info where i: "clients st ws = Some info" using assms(2) by auto
  from handle_message_registries [OF i, of E msg] show ?thesis
  proof
    assume "clients (handle_message E st ws msg) = clients st \<and>
          rooms (handle_message E st ws msg) = rooms st"
    then show ?thesis using assms(1) consistent_unchanged [of st "handle_message E st ws msg"] by blast
  next
    assume "\<exists>k. clients (handle_message E st ws msg) =
                 (clients st)(ws \<mapsto> info\<lparr>client_rooms := set_add k (client_rooms info)\<rparr>) \<and>
              rooms (handle_message E st ws msg) =
                 (rooms st)(k \<mapsto> set_add ws (case rooms st k of None \<Rightarrow> [] | Some m \<Rightarrow> m))"
    then obtain k where "clients (handle_message E st ws msg) =
                 (clients st)(ws \<mapsto> info\<lparr>client_rooms := set_add k (client_rooms info)\<rparr>)"
              "rooms (handle_message E st ws msg) =
                 (rooms st)(k \<mapsto> set_add ws (case rooms st k of None \<Rightarrow> [] | Some m \<Rightarrow> m))"
      by blast
    then show ?thesis by (rule consistent_join_update [OF assms(1) i])
  qed
qed

lemma consistent_close:
  assumes "consistent st"
  shows "consistent (close_connection E st ws)"
proof (cases "clients st ws")
  case None then show ?thesis using assms by (simp add: close_connection_absent)
next
  case (Some info)
  let ?st' = "close_connection E st ws"
  have m: "member_of_own_rooms st" and g: "members_registered st" and p: "rooms_proper st"
    using assms(1) by (simp_all add: consistent_def)
  note cl = close_connection_registered [OF Some, of E]
  have in_room: "k \<in> set (client_rooms info)" if "rooms st k = Some m0" "ws \<in> set m0" for k m0
    using g that Some unfolding members_registered_def by fastforce
  have post: "rooms ?st' k = Some m' \<longleftrightarrow>
      (\<exists>m0. rooms st k = Some m0 \<and> m' = removeAll ws m0 \<and> m' \<noteq> [])" for k m'
  proof (cases "rooms st k")
    case None then show ?thesis by (simp add: cl leave_rooms_apply)
  next
    case s: (Some m0)
    show ?thesis
    proof (cases "k \<in> set (client_rooms info)")
      case True then show ?thesis using s by (auto simp: cl leave_rooms_apply)
    next
      case False
      then have "ws \<notin> set m0" using in_room s by blast
      then have "removeAll ws m0 = m0" by simp
      moreover have "m0 \<noteq> []" using p s unfolding rooms_proper_def by blast
      ultimately show ?thesis using s False by (auto simp: cl leave_rooms_apply)
    qed
  qed
  have "member_of_own_rooms ?st'"
    unfolding member_of_own_rooms_def
  proof (intro allI impI ballI)
    fix c i k assume a: "clients ?st' c = Some i" "k \<in> set (client_rooms i)"
    then have ne: "c \<noteq> ws" and "clients st c = Some i" by (auto simp: cl split: if_splits)
    then obtain m0 where m0: "rooms st k = Some m0" "c \<in> set m0"
      using m a(2) unfolding member_of_own_rooms_def by blast
    then have "c \<in> set (removeAll ws m0)" using ne by simp
    moreover from this have "removeAll ws m0 \<noteq> []" by (metis empty_iff empty_set)
    ultimately have "rooms ?st' k = Some (removeAll ws m0) \<and> c \<in> set (removeAll ws m0)"
      using m0(1) post [of k "removeAll ws m0"] by blast
    then show "\<exists>m. rooms ?st' k = Some m \<and> c \<in> set m" by blast
  qed
  moreover have "members_registered ?st'"
    unfolding members_registered_def
  proof (intro allI impI ballI)
    fix k m' c assume a: "rooms ?st' k = Some m'" "c \<in> set m'"
    then obtain m0 where m0: "rooms st k = Some m0" "m' = removeAll ws m0" using post by blast
    then have "c \<noteq> ws" "c \<in> set m0" using a(2) by auto
    then obtain i where "clients st c = Some i" "k \<in> set (client_rooms i)"
      using g m0(1) unfolding members_registered_def by blast
    then show "\<exists>i. clients ?st' c = Some i \<and> k \<in> set (client_rooms i)"
      using \<open>c \<noteq> ws\<close> by (simp add: cl)
  qed
  moreover have "rooms_proper ?st'"
    unfolding rooms_proper_def
  proof (intro allI impI)
    fix k m' assume "rooms ?st' k = Some m'"
    then obtain m0 where "rooms st k = Some m0" "m' = removeAll ws m0" "m' \<noteq> []" using post by blast
    then show "distinct m' \<and> m' \<noteq> []" using p unfolding rooms_proper_def by (auto simp: distinct_removeAll)
  qed
  ultimately show ?thesis by (simp add: consistent_def)
qed

lemma reachable_consistent: "reachable E st \<Longrightarrow> consistent st"
proof (induction rule: reachable.induct)
  case init show ?case by (rule consistent_init)
next
  case (accept st websocket) then show ?case by (simp add: consistent_register)
next
  case (message st websocket message) then show ?case by (simp add: consistent_handle_message)
next
  case (close st websocket) then show ?case by (simp add: consistent_close)
qed

lemma example_build: "build (encode_utf8 ''{}'') 1 = Inr [129, 2, 123, 125]"
  by (simp add: build_def encode_utf8_def Let_def)

lemmas example_unfold = example_env_def handle_message_def handle_join_def
      dict_get_def Let_def register_def init_server_def send_to_client_def example_build
      set_add_def say_def

lemma example1_fields:
  "clients example_state1 1 = Some \<lparr>client_id = 1, client_rooms = [KStr ''a'']\<rparr>"
  "clients example_state1 2 = Some \<lparr>client_id = 2, client_rooms = []\<rparr>"
  "rooms example_state1 (KStr ''a'') = Some [1]"
  by (simp_all add: example_state1_def example_unfold)

lemma example_fields:
  "clients example_state 1 = Some \<lparr>client_id = 1, client_rooms = [KStr ''a'']\<rparr>"
  "clients example_state 2 = Some \<lparr>client_id = 2, client_rooms = [KStr ''a'']\<rparr>"
  "rooms example_state (KStr ''a'') = Some [1, 2]"
  "writes example_state = [(1, [129, 2, 123, 125]), (2, [129, 2, 123, 125])]"
  "closed example_state = []"
  by (simp_all add: example_state_def example_state1_def example_unfold)

lemma example1_reachable: "reachable example_env example_state1"
proof -
  let ?s0 = "register init_server 1"
  let ?s1 = "register ?s0 2"
  have "reachable example_env ?s0"
    by (rule reachable.accept [OF reachable.init]) (simp add: init_server_def)
  then have r1: "reachable example_env ?s1"
    by (rule reachable.accept) (simp add: register_def init_server_def)
  then show ?thesis unfolding example_state1_def
    by (rule reachable.message) (simp add: register_def init_server_def)
qed

lemma example_reachable: "reachable example_env example_state"
  unfolding example_state_def
  by (rule reachable.message [OF example1_reachable]) (simp add: domIff example1_fields)

subsection \<open>Routing, teardown and the invariant\<close>




text \<open>
  Claim C8. In every state reached from the empty registries by accepting connections,
  handling messages (joins and broadcasts among them) and closing connections, each
  registered connection is a member, in the room registry, of every room in its own
  room set.
\<close>

theorem registries_agree:
  assumes "reachable E st" and "clients st c = Some info" and "k \<in> set (client_rooms info)"
  shows "\<exists>members. rooms st k = Some members \<and> c \<in> set members"
  using reachable_consistent [OF assms(1)] assms(2,3)
  unfolding consistent_def member_of_own_rooms_def by blast

theorem registries_agree_witness:
  "reachable example_env example_state \<and>
   clients example_state 1 = Some \<lparr>client_id = 1, client_rooms = [KStr ''a'']\<rparr> \<and>
   KStr ''a'' \<in> set (client_rooms \<lparr>client_id = 1, client_rooms = [KStr ''a'']\<rparr>) \<and>
   (\<exists>members. rooms example_state (KStr ''a'') = Some members \<and> 1 \<in> set members)"
proof -
  have k: "KStr ''a'' \<in> set (client_rooms \<lparr>client_id = 1, client_rooms = [KStr ''a'']\<rparr>)" by simp
  from registries_agree [OF example_reachable example_fields(1) k]
    example_reachable example_fields(1) k
  show ?thesis by blast
qed

text \<open>
  Claim C9. A message that \<open>json.loads\<close> rejects, or that it reads as a value which is
  not an object with one of the types \<open>join\<close>, \<open>presence\<close>, \<open>offer\<close>, \<open>answer\<close>,
  \<open>ice-candidate\<close>, changes neither registry, writes to no connection and closes no
  connection; \<open>handle_message\<close> returns normally, so the connection loop goes on.
\<close>

theorem unknown_message_dropped:
  assumes "json_loads E msg = None \<or>
           (\<exists>data. json_loads E msg = Some data \<and>
              (\<forall>d. data = JObj d \<longrightarrow> dict_get d ''type'' JNull \<notin> set (JStr ''join'' # relayed_types)))"
  shows "clients (handle_message E st ws msg) = clients st \<and>
         rooms (handle_message E st ws msg) = rooms st \<and>
         writes (handle_message E st ws msg) = writes st \<and>
         closed (handle_message E st ws msg) = closed st"
  using assms
proof
  assume "json_loads E msg = None"
  then show ?thesis by (simp add: handle_message_def)
next
  assume "\<exists>data. json_loads E msg = Some data \<and>
              (\<forall>d. data = JObj d \<longrightarrow> dict_get d ''type'' JNull \<notin> set (JStr ''join'' # relayed_types))"
  then obtain data where d: "json_loads E msg = Some data"
     "\<And>d. data = JObj d \<Longrightarrow> dict_get d ''type'' JNull \<notin> set (JStr ''join'' # relayed_types)"
    by blast
  show ?thesis
  proof (cases data)
    case (JObj x)
    then show ?thesis using d(1) d(2) [OF JObj] by (simp add: handle_message_def Let_def)
  qed (simp_all add: handle_message_def d(1))
qed

theorem unknown_message_dropped_witness:
  "(json_loads example_env ''X'' = None \<or>
      (\<exists>data. json_loads example_env ''X'' = Some data \<and>
         (\<forall>d. data = JObj d \<longrightarrow> dict_get d ''type'' JNull \<notin> set (JStr ''join'' # relayed_types)))) \<and>
   clients (handle_message example_env example_state 1 ''X'') = clients example_state \<and>
   rooms (handle_message example_env example_state 1 ''X'') = rooms example_state \<and>
   writes (handle_message example_env example_state 1 ''X'') = writes example_state \<and>
   closed (handle_message example_env example_state 1 ''X'') = closed example_state"
proof -
  have "json_loads example_env ''X'' = Some (JObj [(''type'', JStr ''bye'')])"
    by (simp add: example_env_def)
  moreover have "dict_get [(''type'', JStr ''bye'')] ''type'' JNull \<notin> set (JStr ''join'' # relayed_types)"
    by (simp add: dict_get_def relayed_types_def)
  ultimately have h: "json_loads example_env ''X'' = None \<or>
      (\<exists>data. json_loads example_env ''X'' = Some data \<and>
         (\<forall>d. data = JObj d \<longrightarrow> dict_get d ''type'' JNull \<notin> set (JStr ''join'' # relayed_types)))"
    by auto
  from unknown_message_dropped [OF h, of example_state 1] h show ?thesis by blast
qed

lemma closed_rooms_post:
  assumes "reachable E st" "rooms (close_connection E st ws) k = Some m"
  shows "ws \<notin> set m \<and> m \<noteq> []"
proof (cases "clients st ws")
  case None
  have c: "consistent st" using assms(1) by (rule reachable_consistent)
  have "rooms st k = Some m" using assms(2) None by (simp add: close_connection_absent)
  then show ?thesis using c None unfolding consistent_def members_registered_def rooms_proper_def
    by fastforce
next
  case (Some info)
  have c: "consistent st" using assms(1) by (rule reachable_consistent)
  have r: "leave_rooms ws (rooms st) (client_rooms info) k = Some m"
    using assms(2) close_connection_registered(2) [OF Some, of E] by simp
  show ?thesis
  proof (cases "k \<in> set (client_rooms info)")
    case True
    then show ?thesis using r by (auto simp: leave_rooms_apply split: option.splits if_splits)
  next
    case False
    then have m: "rooms st k = Some m" using r by (simp add: leave_rooms_apply)
    then have "m \<noteq> []" using c unfolding consistent_def rooms_proper_def by blast
    moreover have "ws \<notin> set m"
      using c m Some False unfolding consistent_def members_registered_def by fastforce
    ultimately show ?thesis by simp
  qed
qed

lemma emptied_room_deleted:
  assumes "reachable E st" "rooms st k = Some m" "set m \<subseteq> {ws}"
  shows "rooms (close_connection E st ws) k = None"
proof -
  have c: "consistent st" using assms(1) by (rule reachable_consistent)
  have "m \<noteq> []" using c assms(2) unfolding consistent_def rooms_proper_def by blast
  then have w: "ws \<in> set m" using assms(3) by (cases m) auto
  then obtain info where i: "clients st ws = Some info" "k \<in> set (client_rooms info)"
    using c assms(2) unfolding consistent_def members_registered_def by blast
  have "removeAll ws m = []" using assms(3) by (induction m) auto
  then show ?thesis
    using close_connection_registered(2) [OF i(1), of E] i(2) assms(2)
    by (simp add: leave_rooms_apply)
qed

lemma set_add_member: "x \<in> set xs \<Longrightarrow> set_add x xs = xs"
  by (simp add: set_add_def)

text \<open>
  Claim C7. In a reachable state, after \<open>close_connection\<close> the connection is in no
  room and not in the client registry; no room is left empty, a room whose only member
  it was has no entry any more, and a broadcast to a room without entry returns without
  effect; closing a connection that is not registered changes nothing; and a join by a
  connection that is already a member of the room leaves the room's member list as it
  was, with that connection in it once.
\<close>

theorem close_connection_cleanup:
  assumes "reachable E st"
  shows "clients (close_connection E st ws) ws = None \<and>
         (\<forall>k m. rooms (close_connection E st ws) k = Some m \<longrightarrow> ws \<notin> set m \<and> m \<noteq> []) \<and>
         (\<forall>k m. rooms st k = Some m \<and> set m \<subseteq> {ws} \<longrightarrow>
              rooms (close_connection E st ws) k = None) \<and>
         (\<forall>room_id k data exclude.
              py_key room_id = Inr k \<and> rooms (close_connection E st ws) k = None \<longrightarrow>
              broadcast_to_room E (close_connection E st ws) room_id data exclude
                = Inr (close_connection E st ws)) \<and>
         (clients st ws = None \<longrightarrow> close_connection E st ws = st) \<and>
         (\<forall>msg d k m. json_loads E msg = Some (JObj d) \<and> dict_get d ''type'' JNull = JStr ''join'' \<and>
              py_key (dict_get d ''room'' (JStr ''default'')) = Inr k \<and>
              rooms st k = Some m \<and> ws \<in> set m \<longrightarrow>
              rooms (handle_message E st ws msg) k = Some m \<and>
              length (filter (\<lambda>c. c = ws) m) = 1)"
proof (intro conjI allI impI)
  show "clients (close_connection E st ws) ws = None"
    by (cases "clients st ws") (simp_all add: close_connection_def)
next
  fix k m assume "rooms (close_connection E st ws) k = Some m"
  then show "ws \<notin> set m" "m \<noteq> []" using closed_rooms_post [OF assms] by blast+
next
  fix k m assume "rooms st k = Some m \<and> set m \<subseteq> {ws}"
  then show "rooms (close_connection E st ws) k = None"
    using emptied_room_deleted [OF assms] by blast
next
  fix room_id k data exclude
  assume "py_key room_id = Inr k \<and> rooms (close_connection E st ws) k = None"
  then show "broadcast_to_room E (close_connection E st ws) room_id data exclude
                = Inr (close_connection E st ws)"
    by (simp add: broadcast_to_room_def)
next
  assume "clients st ws = None"
  then show "close_connection E st ws = st" by (rule close_connection_absent)
next
  fix msg d k m
  assume a: "json_loads E msg = Some (JObj d) \<and> dict_get d ''type'' JNull = JStr ''join'' \<and>
              py_key (dict_get d ''room'' (JStr ''default'')) = Inr k \<and>
              rooms st k = Some m \<and> ws \<in> set m"
  have c: "consistent st" using assms by (rule reachable_consistent)
  then obtain info where i: "clients st ws = Some info"
    using a unfolding consistent_def members_registered_def by blast
  have hm: "handle_message E st ws msg = handle_join E st ws (dict_get d ''room'' (JStr ''default''))"
    using a by (simp add: handle_message_def Let_def)
  have "rooms (handle_message E st ws msg) = (rooms st)(k \<mapsto> set_add ws m)"
    using handle_join_registered(2) [OF i, of _ k E] a by (simp add: hm)
  then show "rooms (handle_message E st ws msg) k = Some m" using a by (simp add: set_add_member)
  have "distinct m" using c a unfolding consistent_def rooms_proper_def by blast
  then show "length (filter (\<lambda>c. c = ws) m) = 1"
    using a by (simp add: distinct_length_filter)
qed

theorem close_connection_cleanup_witness:
  "reachable example_env example_state1 \<and>
   clients (close_connection example_env example_state1 1) 1 = None \<and>
   rooms example_state1 (KStr ''a'') = Some [1] \<and> set [1] \<subseteq> {1::nat} \<and>
   rooms (close_connection example_env example_state1 1) (KStr ''a'') = None \<and>
   broadcast_to_room example_env (close_connection example_env example_state1 1) (JStr ''a'') JNull None
      = Inr (close_connection example_env example_state1 1) \<and>
   json_loads example_env ''J'' = Some (JObj [(''type'', JStr ''join''), (''room'', JStr ''a'')]) \<and>
   rooms (handle_message example_env example_state1 1 ''J'') (KStr ''a'') = Some [1] \<and>
   length (filter (\<lambda>c. c = 1) [1::nat]) = 1"
proof -
  let ?d = "[(''type'', JStr ''join''), (''room'', JStr ''a'')]"
  note inst = close_connection_cleanup [OF example1_reachable, of 1]
  have a: "clients (close_connection example_env example_state1 1) 1 = None"
    using inst by blast
  have s: "set [1] \<subseteq> {1::nat}" by simp
  have b: "rooms (close_connection example_env example_state1 1) (KStr ''a'') = None"
    using inst example1_fields(3) s by blast
  have k: "py_key (JStr ''a'') = Inr (KStr ''a'')" by simp
  have c: "broadcast_to_room example_env (close_connection example_env example_state1 1) (JStr ''a'') JNull None
      = Inr (close_connection example_env example_state1 1)"
    using inst k b by blast
  have l: "json_loads example_env ''J'' = Some (JObj ?d)" by (simp add: example_env_def)
  have t: "dict_get ?d ''type'' JNull = JStr ''join''" by (simp add: dict_get_def)
  have r: "py_key (dict_get ?d ''room'' (JStr ''default'')) = Inr (KStr ''a'')" by (simp add: dict_get_def)
  have m: "(1::nat) \<in> set [1]" by simp
  have j: "rooms (handle_message example_env example_state1 1 ''J'') (KStr ''a'') = Some [1] \<and>
           length (filter (\<lambda>c. c = 1) [1::nat]) = 1"
    using inst l t r example1_fields(3) m by blast
  from example1_reachable a example1_fields(3) s b c l j show ?thesis by blast
qed

lemma process_frames_bad_text:
  assumes "parse buffer = Some frame" "opcode frame = 1" "\<not> utf8_valid (payload frame)"
  shows "process_frames E st ws buffer =
           (Raise UnicodeDecodeError, st, drop (length_consumed frame) buffer)"
proof -
  have "buffer \<noteq> []" using assms(1) by (auto simp: parse_def parse_header_def)
  then show ?thesis using assms
    by (subst process_frames.simps) (simp add: decode_utf8_def Let_def)
qed

text \<open>
  Claim C10. When the next frame in the buffer of a registered connection is a text
  frame whose payload is not valid UTF-8, \<open>decode\<close> raises inside \<open>handle_client\<close>'s
  \<open>try\<close>: the loop ends there, whatever else the buffer and the later reads hold, the
  exception is printed and the \<open>finally\<close> block closes the connection. Afterwards the
  connection is in no room and not registered, \<open>close\<close> has been called on it, nothing
  was written, and the registries are consistent.
\<close>

theorem invalid_utf8_tears_down:
  assumes "reachable E st" and "clients st ws = Some info"
    and "data \<noteq> []" and "parse (buffer @ data) = Some frame"
    and "opcode frame = 1" and "\<not> utf8_valid (payload frame)"
    and "st' = close_connection E (say (ErrorHandlingClient UnicodeDecodeError) st) ws"
  shows "message_loop E st ws buffer (Inr data # reads) = (Closed, st') \<and>
         clients st' ws = None \<and>
         (\<forall>k m. rooms st' k = Some m \<longrightarrow> ws \<notin> set m) \<and>
         closed st' = closed st @ [ws] \<and>
         writes st' = writes st \<and>
         consistent st'"
proof -
  let ?s = "say (ErrorHandlingClient UnicodeDecodeError) st"
  have same: "clients ?s = clients st" "rooms ?s = rooms st" by simp_all
  have c: "consistent st" using assms(1) by (rule reachable_consistent)
  then have cs: "consistent ?s" by (rule consistent_unchanged) simp_all
  have i: "clients ?s ws = Some info" using assms(2) by simp
  have "message_loop E st ws buffer (Inr data # reads) = (Closed, st')"
    using assms(3) process_frames_bad_text [OF assms(4,5,6), of E st ws] assms(7) by simp
  moreover have "clients st' ws = None"
    using close_connection_registered(1) [OF i, of E] assms(7) by simp
  moreover have "ws \<notin> set m" if "rooms st' k = Some m" for k m
  proof -
    have r: "leave_rooms ws (rooms st) (client_rooms info) k = Some m"
      using that close_connection_registered(2) [OF i, of E] assms(7) by simp
    show ?thesis
    proof (cases "k \<in> set (client_rooms info)")
      case True
      then show ?thesis using r by (auto simp: leave_rooms_apply split: option.splits if_splits)
    next
      case False
      then have "rooms st k = Some m" using r by (simp add: leave_rooms_apply)
      then show ?thesis
        using c assms(2) False unfolding consistent_def members_registered_def by fastforce
    qed
  qed
  moreover have "closed st' = closed st @ [ws]"
    using close_connection_registered(3) [OF i, of E] assms(7) by simp
  moreover have "writes st' = writes st"
    using close_connection_registered(4) [OF i, of E] assms(7) by simp
  moreover have "consistent st'" using cs assms(7) by (simp add: consistent_close)
  ultimately show ?thesis by blast
qed

theorem invalid_utf8_tears_down_witness:
  "reachable example_env example_state \<and>
   clients example_state 1 = Some \<lparr>client_id = 1, client_rooms = [KStr ''a'']\<rparr> \<and>
   [129, 1, 255 :: byte] \<noteq> [] \<and>
   parse ([] @ [129, 1, 255]) = Some \<lparr>fin = 1, opcode = 1, payload = [255], length_consumed = 3\<rparr> \<and>
   \<not> utf8_valid [255] \<and>
   message_loop example_env example_state 1 [] [Inr [129, 1, 255], Inr [129, 0]] =
     (Closed, close_connection example_env (say (ErrorHandlingClient UnicodeDecodeError) example_state) 1) \<and>
   clients (close_connection example_env (say (ErrorHandlingClient UnicodeDecodeError) example_state) 1) 1 = None \<and>
   closed (close_connection example_env (say (ErrorHandlingClient UnicodeDecodeError) example_state) 1) = closed example_state @ [1]"
proof -
  let ?fr = "\<lparr>fin = 1, opcode = 1, payload = [255 :: byte], length_consumed = 3\<rparr>"
  have n: "[129, 1, 255 :: byte] \<noteq> []" by simp
  have p: "parse ([] @ [129, 1, 255]) = Some ?fr"
    by (simp add: parse_def parse_header_def Let_def slice_def)
  have o: "opcode ?fr = 1" by simp
  have u: "\<not> utf8_valid (payload ?fr)" by simp
  note inst = invalid_utf8_tears_down [OF example_reachable example_fields(1) n p o u refl,
      of "[Inr [129, 0]]"]
  have u': "\<not> utf8_valid [255]" by simp
  from inst example_reachable example_fields(1) n p u' show ?thesis by blast
qed

end
